theory Spec2Isabelle
  imports Complex_Main
begin

section \<open>The audio visualizer of xFFT.py\<close>

text \<open>
  The program is one function, \<^verbatim>\<open>run_visualizer\<close>, whose local variables are shared by
  the closures defined inside it (the audio callback, the widget handlers). The model
  turns these variables into an explicit record and every closure into a function on it.
  Samples and cutoffs are real numbers: rounding of the float arithmetic is not part of
  the model. Rendering (\<^verbatim>\<open>update\<close>, window titles, colours) changes none of the
  variables and is left out.
\<close>

subsection \<open>Exceptions\<close>

datatype error = UnboundLocalError | ValueError | IndexError | ZeroDivisionError

subsection \<open>Array operations of numpy and scipy\<close>

definition block_size :: nat where
  "block_size = 2048"

text \<open>
  \<^verbatim>\<open>a * b\<close> on one-dimensional arrays: elementwise when the lengths agree, an array of
  length one is broadcast, any other pair of lengths raises ValueError.
\<close>

definition np_mul :: "real list \<Rightarrow> real list \<Rightarrow> error + real list" where
  "np_mul a b =
     (if length a = length b then Inr (map2 (*) a b)
      else if length a = 1 then Inr (map (\<lambda>v. hd a * v) b)
      else if length b = 1 then Inr (map (\<lambda>v. v * hd b) a)
      else Inl ValueError)"

text \<open>
  \<^verbatim>\<open>np.blackman(M)\<close>: empty for \<open>M < 1\<close>, \<open>[1]\<close> for \<open>M = 1\<close>, and otherwise, over
  \<^verbatim>\<open>n = arange(1 - M, M, 2)\<close>, the values
  \<^verbatim>\<open>0.42 + 0.5*cos(pi*n/(M-1)) + 0.08*cos(2.0*pi*n/(M-1))\<close>.
\<close>

definition blackman :: "nat \<Rightarrow> real list" where
  "blackman M =
     (if M < 1 then []
      else if M = 1 then [1]
      else map (\<lambda>i. let n = real_of_int (1 - int M + 2 * int i) in
                  0.42 + 0.5 * cos (pi * n / real (M - 1))
                       + 0.08 * cos (2 * pi * n / real (M - 1)))
             [0..<M])"

definition window :: "real list" where
  "window = blackman block_size"

text \<open>
  \<^verbatim>\<open>rfftfreq(n, d)\<close>: \<^verbatim>\<open>val = 1.0/(n*d)\<close>, then \<^verbatim>\<open>arange(0, n//2 + 1) * val\<close>.
\<close>

definition rfftfreq :: "nat \<Rightarrow> real \<Rightarrow> real list" where
  "rfftfreq n d = (let val = 1 / (real n * d) in map (\<lambda>k. real k * val) [0..<n div 2 + 1])"

text \<open>
  \<^verbatim>\<open>rfft(x)\<close> for a real array of length \<open>n\<close>: the bins \<open>0 .. n div 2\<close> of the discrete
  Fourier transform, \<open>X\<^sub>k = \<Sum>\<^sub>j x\<^sub>j exp(-2\<pi>i jk/n)\<close>.
\<close>

definition rfft :: "real list \<Rightarrow> complex list" where
  "rfft x =
     (let n = length x in
      map (\<lambda>k. \<Sum>j<n. complex_of_real (x ! j) * cis (- (2 * pi * real j * real k / real n)))
        [0..<n div 2 + 1])"

text \<open>
  \<^verbatim>\<open>irfft(X)\<close> for \<open>m\<close> bins returns \<open>n = 2(m - 1)\<close> real samples: the inverse transform
  of the Hermitian extension of \<open>X\<close>. The imaginary parts of the first and of the last
  bin do not enter the result.
\<close>

definition irfft :: "complex list \<Rightarrow> real list" where
  "irfft X =
     (let m = length X; n = 2 * (m - 1) in
      map (\<lambda>j. (Re (X ! 0)
                 + (\<Sum>k = 1..<m - 1. 2 * Re (X ! k * cis (2 * pi * real j * real k / real n)))
                 + Re (X ! (m - 1)) * cos (pi * real j)) / real n)
        [0..<n])"

text \<open>
  \<^verbatim>\<open>a[sel] = 0\<close> with a boolean array \<open>sel\<close>: the entries selected by \<open>sel\<close> become
  zero; a selector of another length raises IndexError.
\<close>

definition assign_zero :: "bool list \<Rightarrow> complex list \<Rightarrow> error + complex list" where
  "assign_zero sel a =
     (if length sel \<noteq> length a then Inl IndexError
      else Inr (map2 (\<lambda>s z. if s then 0 else z) sel a))"

text \<open>\<^verbatim>\<open>a[::4]\<close>: the entries at the indices \<open>0, 4, 8, ...\<close>.\<close>

definition stride4 :: "'a list \<Rightarrow> 'a list" where
  "stride4 a = map (\<lambda>i. a ! (4 * i)) [0..<(length a + 3) div 4]"

text \<open>
  \<^verbatim>\<open>outdata[:] = v.reshape(-1, 1)\<close> on an output buffer of \<open>frames\<close> rows: the column
  \<open>v\<close> must have \<open>frames\<close> rows, or one row that is broadcast; otherwise ValueError.
\<close>

definition assign_out :: "nat \<Rightarrow> real list \<Rightarrow> error + real list" where
  "assign_out frames v =
     (if length v = frames then Inr v
      else if length v = 1 then Inr (replicate frames (hd v))
      else Inl ValueError)"

subsection \<open>Bounded deques\<close>

text \<open>
  \<^verbatim>\<open>deque(maxlen=m)\<close>: \<^verbatim>\<open>append\<close> adds on the right and then drops the leftmost
  element when the length exceeds \<open>m\<close>; \<^verbatim>\<open>extend\<close> appends the elements one by one.
\<close>

definition deque_append :: "nat \<Rightarrow> 'a list \<Rightarrow> 'a \<Rightarrow> 'a list" where
  "deque_append maxlen d v = (let d' = d @ [v] in if length d' > maxlen then tl d' else d')"

definition deque_extend :: "nat \<Rightarrow> 'a list \<Rightarrow> 'a list \<Rightarrow> 'a list" where
  "deque_extend maxlen d vs = foldl (deque_append maxlen) d vs"

subsection \<open>The variables of \<^verbatim>\<open>run_visualizer\<close>\<close>

datatype stream_state = NoStream | Running | Closed

text \<open>
  \<open>display_samples\<close> (the \<^verbatim>\<open>maxlen\<close> of \<^verbatim>\<open>time_buffer\<close>) and \<open>freqs\<close> are computed once,
  from the sample rate of the first file; no later assignment to them exists.
\<close>

record state =
  y :: "real list"
  sr :: nat
  display_samples :: nat
  freqs :: "real list"
  time_buffer :: "real list"
  spectrum_buffer :: "real list list"
  lowcut :: real
  highcut :: real
  filter_enabled :: bool
  stream :: stream_state
  paused :: bool
  audio_position :: nat

text \<open>
  The variables once \<^verbatim>\<open>run_visualizer\<close> has loaded the first file as
  (\<open>samples\<close>, \<open>rate\<close>) and reached \<^verbatim>\<open>plt.show()\<close>. \<^verbatim>\<open>1/sr\<close> raises for a rate of
  zero.
\<close>

definition initial_state :: "real list \<Rightarrow> nat \<Rightarrow> state" where
  "initial_state samples rate =
     \<lparr> y = samples, sr = rate,
       display_samples = rate div 10,
       freqs = rfftfreq block_size (1 / real rate),
       time_buffer = [], spectrum_buffer = [],
       lowcut = 100, highcut = 1000, filter_enabled = False,
       stream = NoStream, paused = True, audio_position = 0 \<rparr>"

definition run_visualizer :: "real list \<Rightarrow> nat \<Rightarrow> error + state" where
  "run_visualizer samples rate =
     (if rate = 0 then Inl ZeroDivisionError else Inr (initial_state samples rate))"

subsection \<open>The band-pass filter\<close>

text \<open>
  \<^verbatim>\<open>
  def apply_bandpass(data, lowcut, highcut):
      fft_data = rfft(data * window)
      mask = (freqs >= lowcut) & (freqs <= highcut)
      fft_data[~mask] = 0
      return irfft(fft_data).real
  \<close>
  \<open>freqs\<close> is the closure variable, passed here as the first argument.
\<close>

definition apply_bandpass :: "real list \<Rightarrow> real list \<Rightarrow> real \<Rightarrow> real \<Rightarrow> error + real list" where
  "apply_bandpass fs data lo hi =
     (case np_mul data window of
        Inl e \<Rightarrow> Inl e
      | Inr xw \<Rightarrow>
          (let fft_data = rfft xw;
               mask = map (\<lambda>f. f \<ge> lo \<and> f \<le> hi) fs
           in case assign_zero (map Not mask) fft_data of
                Inl e \<Rightarrow> Inl e
              | Inr masked \<Rightarrow> Inr (irfft masked)))"

subsection \<open>The audio callback\<close>

text \<open>
  The magnitude spectrum in decibels,
  \<^verbatim>\<open>20 * np.log10(np.abs(rfft(filtered_chunk * window)) + 1e-9)\<close>.
\<close>

definition spectrum_db :: "real list \<Rightarrow> error + real list" where
  "spectrum_db v =
     (case np_mul v window of
        Inl e \<Rightarrow> Inl e
      | Inr vw \<Rightarrow> Inr (map (\<lambda>z. 20 * log 10 (cmod z + 1 / 10 ^ 9)) (rfft vw)))"

text \<open>
  The callback receives an output buffer of \<open>frames\<close> rows. It returns what it wrote
  (\<open>Inr\<close>) or the exception that left it (\<open>Inl\<close>), and the variables as they are then.
  \<^verbatim>\<open>filtered_chunk\<close> is a local variable assigned only inside
  \<^verbatim>\<open>if len(chunk) == block_size\<close>; reading it after another chunk length raises
  UnboundLocalError, before \<^verbatim>\<open>audio_position\<close> is assigned.
\<close>

definition audio_callback :: "state \<Rightarrow> nat \<Rightarrow> (error + real list) \<times> state" where
  "audio_callback st frames =
     (if paused st \<or> audio_position st \<ge> length (y st) then (Inr (replicate frames 0), st)
      else
        let start = audio_position st;
            stop = min (start + frames) (length (y st));
            chunk = take (stop - start) (drop start (y st))
        in if length chunk = block_size then
             (case (if filter_enabled st
                    then apply_bandpass (freqs st) chunk (lowcut st) (highcut st)
                    else Inr chunk) of
                Inl e \<Rightarrow> (Inl e, st)
              | Inr filtered_chunk \<Rightarrow>
                  (let st1 = st\<lparr>time_buffer :=
                               deque_extend (display_samples st) (time_buffer st)
                                 (stride4 filtered_chunk)\<rparr>
                   in case spectrum_db filtered_chunk of
                        Inl e \<Rightarrow> (Inl e, st1)
                      | Inr spectrum \<Rightarrow>
                          (let st2 = st1\<lparr>spectrum_buffer :=
                                        deque_append 10 (spectrum_buffer st1) spectrum\<rparr>
                           in case assign_out frames filtered_chunk of
                                Inl e \<Rightarrow> (Inl e, st2)
                              | Inr out \<Rightarrow> (Inr out, st2\<lparr>audio_position := stop\<rparr>))))
           else (Inl UnboundLocalError, st))"

subsection \<open>Reading a cutoff: \<^verbatim>\<open>float(text)\<close>\<close>

text \<open>
  The grammar of Python's \<^verbatim>\<open>float\<close> on ASCII text: surrounding whitespace is
  stripped; then an optional sign and either \<^verbatim>\<open>inf\<close>, \<^verbatim>\<open>infinity\<close>, \<^verbatim>\<open>nan\<close> (in any
  case) or a decimal number with an optional exponent. Digits may be separated by single
  underscores. Anything else raises ValueError, which is \<open>None\<close> here. The value of a
  number is its exact decimal value.
\<close>

datatype pyfloat = Finite real | PosInf | NegInf | NaN

definition is_space :: "char \<Rightarrow> bool" where
  "is_space c = (let n = (of_char c :: nat) in (9 \<le> n \<and> n \<le> 13) \<or> (28 \<le> n \<and> n \<le> 32))"

definition is_digit :: "char \<Rightarrow> bool" where
  "is_digit c = (let n = (of_char c :: nat) in 48 \<le> n \<and> n \<le> 57)"

definition digit_val :: "char \<Rightarrow> nat" where
  "digit_val c = of_char c - 48"

definition to_lower :: "char \<Rightarrow> char" where
  "to_lower c = (let n = (of_char c :: nat) in if 65 \<le> n \<and> n \<le> 90 then char_of (n + 32) else c)"

definition strip :: "string \<Rightarrow> string" where
  "strip s = rev (dropWhile is_space (rev (dropWhile is_space s)))"

text \<open>The digits after the first one of a digit part, and the text after them.\<close>

fun digits_tail :: "string \<Rightarrow> nat list \<times> string" where
  "digits_tail [] = ([], [])"
| "digits_tail (c # cs) =
     (if is_digit c then (case digits_tail cs of (ds, r) \<Rightarrow> (digit_val c # ds, r))
      else if c = CHR ''_'' then
        (case cs of
           [] \<Rightarrow> ([], c # cs)
         | d # cs' \<Rightarrow>
             if is_digit d then (case digits_tail cs' of (ds, r) \<Rightarrow> (digit_val d # ds, r))
             else ([], c # cs))
      else ([], c # cs))"

definition digitpart :: "string \<Rightarrow> (nat list \<times> string) option" where
  "digitpart s =
     (case s of
        [] \<Rightarrow> None
      | c # cs \<Rightarrow>
          if is_digit c then (case digits_tail cs of (ds, r) \<Rightarrow> Some (digit_val c # ds, r))
          else None)"

definition digits_value :: "nat list \<Rightarrow> nat" where
  "digits_value ds = foldl (\<lambda>a d. 10 * a + d) 0 ds"

definition read_sign :: "string \<Rightarrow> bool \<times> string" where
  "read_sign s =
     (case s of
        [] \<Rightarrow> (False, s)
      | c # r \<Rightarrow> if c = CHR ''-'' then (True, r) else if c = CHR ''+'' then (False, r)
                 else (False, s))"

text \<open>
  \<^verbatim>\<open>number ::= [digitpart] "." digitpart | digitpart ["."]\<close>: the value read and the
  text after it.
\<close>

definition read_number :: "string \<Rightarrow> (real \<times> string) option" where
  "read_number s =
     (case digitpart s of
        Some (ip, r) \<Rightarrow>
          (case r of
             [] \<Rightarrow> Some (real (digits_value ip), [])
           | c # r' \<Rightarrow>
               if c = CHR ''.'' then
                 (case digitpart r' of
                    Some (fp, r'') \<Rightarrow>
                      Some (real (digits_value ip) + real (digits_value fp) / 10 ^ length fp, r'')
                  | None \<Rightarrow> Some (real (digits_value ip), r'))
               else Some (real (digits_value ip), r))
      | None \<Rightarrow>
          (case s of
             [] \<Rightarrow> None
           | c # r' \<Rightarrow>
               if c = CHR ''.'' then
                 (case digitpart r' of
                    Some (fp, r'') \<Rightarrow> Some (real (digits_value fp) / 10 ^ length fp, r'')
                  | None \<Rightarrow> None)
               else None))"

text \<open>
  \<^verbatim>\<open>exponent ::= ("e" | "E") [sign] digitpart\<close>, which must end the text; no exponent
  is the exponent zero.
\<close>

definition read_exponent :: "string \<Rightarrow> int option" where
  "read_exponent s =
     (case s of
        [] \<Rightarrow> Some 0
      | c # r \<Rightarrow>
          if c = CHR ''e'' \<or> c = CHR ''E'' then
            (case read_sign r of
               (neg, r') \<Rightarrow>
                 (case digitpart r' of
                    Some (ds, []) \<Rightarrow> Some (if neg then - int (digits_value ds) else int (digits_value ds))
                  | _ \<Rightarrow> None))
          else None)"

definition float_of_text :: "string \<Rightarrow> pyfloat option" where
  "float_of_text text =
     (case read_sign (strip text) of
        (neg, s) \<Rightarrow>
          (let w = map to_lower s in
           if w = ''inf'' \<or> w = ''infinity'' then Some (if neg then NegInf else PosInf)
           else if w = ''nan'' then Some NaN
           else case read_number s of
                  None \<Rightarrow> None
                | Some (m, r) \<Rightarrow>
                    (case read_exponent r of
                       None \<Rightarrow> None
                     | Some e \<Rightarrow>
                         Some (Finite ((if neg then - 1 else 1) * m
                                 * (if e < 0 then 1 / 10 ^ nat (- e) else 10 ^ nat e))))))"

subsection \<open>The cutoff text boxes\<close>

text \<open>
  \<^verbatim>\<open>max(20, min(sr/2, v))\<close>. Python's \<^verbatim>\<open>min(a, b)\<close> is \<open>b\<close> when \<open>b < a\<close> and
  \<open>a\<close> otherwise; \<^verbatim>\<open>max(a, b)\<close> is \<open>b\<close> when \<open>b > a\<close> and \<open>a\<close> otherwise. Every
  comparison with \<^verbatim>\<open>nan\<close> is false, so \<^verbatim>\<open>min(sr/2, nan)\<close> is \<^verbatim>\<open>sr/2\<close>. The result is
  always a finite number.
\<close>

fun clamp_cut :: "real \<Rightarrow> pyfloat \<Rightarrow> real" where
  "clamp_cut nyq (Finite v) = max 20 (min nyq v)"
| "clamp_cut nyq PosInf = max 20 nyq"
| "clamp_cut nyq NegInf = 20"
| "clamp_cut nyq NaN = max 20 nyq"

text \<open>
  \<^verbatim>\<open>
  def update_lowcut(text):
      nonlocal lowcut
      try:
          lowcut = float(text)
          lowcut = max(20, min(sr/2, lowcut))
          if lowcut > highcut:
              highcut_box.set_val(str(lowcut))
      except ValueError:
          pass
      update(0)
  \<close>
  and \<^verbatim>\<open>update_highcut\<close> alike. \<^verbatim>\<open>TextBox.set_val\<close> puts the text into the other box
  and submits it, which runs the other handler on a text that \<^verbatim>\<open>float\<close> reads back as the
  same number. The part of each handler after a successful \<^verbatim>\<open>float(text)\<close> is a function
  of the number read; the two call each other.
\<close>

function update_lowcut_value :: "pyfloat \<Rightarrow> state \<Rightarrow> state"
  and update_highcut_value :: "pyfloat \<Rightarrow> state \<Rightarrow> state" where
  "update_lowcut_value v st =
     (if clamp_cut (real (sr st) / 2) v > highcut st
      then update_highcut_value (Finite (clamp_cut (real (sr st) / 2) v))
             (st\<lparr>lowcut := clamp_cut (real (sr st) / 2) v\<rparr>)
      else st\<lparr>lowcut := clamp_cut (real (sr st) / 2) v\<rparr>)"
| "update_highcut_value v st =
     (if clamp_cut (real (sr st) / 2) v < lowcut st
      then update_lowcut_value (Finite (clamp_cut (real (sr st) / 2) v))
             (st\<lparr>highcut := clamp_cut (real (sr st) / 2) v\<rparr>)
      else st\<lparr>highcut := clamp_cut (real (sr st) / 2) v\<rparr>)"
  by pat_completeness auto
termination
proof (relation "measure (\<lambda>a. case a of
          Inl (v, st) \<Rightarrow> if clamp_cut (real (sr st) / 2) v > highcut st then 1 else 0
        | Inr (v, st) \<Rightarrow> if clamp_cut (real (sr st) / 2) v < lowcut st then 1 else 0)")
  show "wf (measure (\<lambda>a. case a of
          Inl (v, st) \<Rightarrow> if clamp_cut (real (sr st) / 2) v > highcut st then 1 else (0::nat)
        | Inr (v, st) \<Rightarrow> if clamp_cut (real (sr st) / 2) v < lowcut st then 1 else 0))"
    by simp
next
  fix v :: pyfloat and st :: state
  assume "highcut st < clamp_cut (real (sr st) / 2) v"
  then show "(Inr (Finite (clamp_cut (real (sr st) / 2) v),
                   st\<lparr>lowcut := clamp_cut (real (sr st) / 2) v\<rparr>), Inl (v, st))
        \<in> measure (\<lambda>a. case a of
          Inl (v, st) \<Rightarrow> if clamp_cut (real (sr st) / 2) v > highcut st then 1 else 0
        | Inr (v, st) \<Rightarrow> if clamp_cut (real (sr st) / 2) v < lowcut st then 1 else 0)"
    by (cases v) (auto simp: max_def min_def)
next
  fix v :: pyfloat and st :: state
  assume "clamp_cut (real (sr st) / 2) v < lowcut st"
  then show "(Inl (Finite (clamp_cut (real (sr st) / 2) v),
                   st\<lparr>highcut := clamp_cut (real (sr st) / 2) v\<rparr>), Inr (v, st))
        \<in> measure (\<lambda>a. case a of
          Inl (v, st) \<Rightarrow> if clamp_cut (real (sr st) / 2) v > highcut st then 1 else 0
        | Inr (v, st) \<Rightarrow> if clamp_cut (real (sr st) / 2) v < lowcut st then 1 else 0)"
    by (cases v) (auto simp: max_def min_def)
qed

declare update_lowcut_value.simps [simp del] update_highcut_value.simps [simp del]

definition update_lowcut :: "string \<Rightarrow> state \<Rightarrow> state" where
  "update_lowcut text st =
     (case float_of_text text of None \<Rightarrow> st | Some v \<Rightarrow> update_lowcut_value v st)"

definition update_highcut :: "string \<Rightarrow> state \<Rightarrow> state" where
  "update_highcut text st =
     (case float_of_text text of None \<Rightarrow> st | Some v \<Rightarrow> update_highcut_value v st)"

subsection \<open>Buttons\<close>

definition toggle_filter :: "state \<Rightarrow> state" where
  "toggle_filter st = st\<lparr>filter_enabled := \<not> filter_enabled st\<rparr>"

text \<open>
  \<^verbatim>\<open>start_stream\<close> opens and starts a new output stream; \<^verbatim>\<open>stop_stream\<close> stops and
  closes the stream if there is one. The device operations are taken to succeed.
\<close>

definition start_stream :: "state \<Rightarrow> state" where
  "start_stream st = st\<lparr>stream := Running, paused := False\<rparr>"

definition stop_stream :: "state \<Rightarrow> state" where
  "stop_stream st =
     st\<lparr>stream := (if stream st = NoStream then NoStream else Closed), paused := True\<rparr>"

definition toggle_play :: "state \<Rightarrow> state" where
  "toggle_play st = (if paused st then start_stream st else stop_stream st)"

definition reset :: "state \<Rightarrow> state" where
  "reset st = st\<lparr>audio_position := 0, time_buffer := [], spectrum_buffer := []\<rparr>"

text \<open>
  What the file dialog and \<^verbatim>\<open>librosa.load\<close> give \<^verbatim>\<open>change_file\<close>: no path chosen, a
  path that does not exist, a file that fails to load, or samples and their rate.
\<close>

datatype pick = Cancelled | Missing | Undecodable | Loaded "real list" nat

definition change_file :: "pick \<Rightarrow> state \<Rightarrow> state" where
  "change_file p st =
     (let st1 = stop_stream st in
      case p of
        Loaded samples rate \<Rightarrow> reset (st1\<lparr>y := samples, sr := rate\<rparr>)
      | _ \<Rightarrow> st1)"

subsection \<open>Runs\<close>

text \<open>
  The events that change the variables: a callback of the audio device with its frame
  count, and the user's actions. Each runs to its end before the next one starts.
\<close>

datatype event =
    Callback nat
  | TogglePlay
  | Reset
  | ToggleFilter
  | SetLowCut string
  | SetHighCut string
  | ChangeFile pick

fun step :: "event \<Rightarrow> state \<Rightarrow> state" where
  "step (Callback frames) st = snd (audio_callback st frames)"
| "step TogglePlay st = toggle_play st"
| "step Reset st = reset st"
| "step ToggleFilter st = toggle_filter st"
| "step (SetLowCut text) st = update_lowcut text st"
| "step (SetHighCut text) st = update_highcut text st"
| "step (ChangeFile p) st = change_file p st"

definition run :: "event list \<Rightarrow> state \<Rightarrow> state" where
  "run evs st = foldl (\<lambda>s e. step e s) st evs"

inductive reachable :: "state \<Rightarrow> bool" where
  start: "run_visualizer samples rate = Inr st \<Longrightarrow> reachable st"
| next_event: "reachable st \<Longrightarrow> reachable (step e st)"


section \<open>Silence when paused or at the end of the samples\<close>

text \<open>
  C7. When the engine is paused, or the position has reached the number of samples
  (an empty source included), the callback writes \<open>frames\<close> zeros and changes neither
  the position nor the two rolling buffers (nor any other variable).
\<close>

theorem callback_silence:
  "paused st \<or> audio_position st \<ge> length (y st) \<Longrightarrow>
     audio_callback st frames = (Inr (replicate frames 0), st)"
  by (simp add: audio_callback_def)

theorem callback_silence_witness:
  "(paused (toggle_play (initial_state [] 44100))
      \<or> audio_position (toggle_play (initial_state [] 44100))
          \<ge> length (y (toggle_play (initial_state [] 44100))))
   \<and> audio_callback (toggle_play (initial_state [] 44100)) 2048
       = (Inr (replicate 2048 0), toggle_play (initial_state [] 44100))"
proof -
  have at_end: "paused (toggle_play (initial_state [] 44100))
      \<or> audio_position (toggle_play (initial_state [] 44100))
          \<ge> length (y (toggle_play (initial_state [] 44100)))"
    by (simp add: toggle_play_def start_stream_def initial_state_def)
  from at_end callback_silence [OF at_end, of 2048] show ?thesis
    by blast
qed

lemma length_blackman: "length (blackman M) = M"
  by (simp add: blackman_def)

lemma length_window: "length window = block_size"
  by (simp add: window_def length_blackman)

lemma length_rfft: "length (rfft x) = length x div 2 + 1"
  by (simp add: rfft_def Let_def)

lemma length_irfft: "length (irfft X) = 2 * (length X - 1)"
  by (simp add: irfft_def Let_def)

lemma length_rfftfreq: "length (rfftfreq n d) = n div 2 + 1"
  by (simp add: rfftfreq_def Let_def)

lemma np_mul_window:
  "length data = block_size \<Longrightarrow> np_mul data window = Inr (map2 (*) data window)"
  by (simp add: np_mul_def length_window)

lemma length_deque_append:
  "length d \<le> m \<Longrightarrow> length (deque_append m d v) \<le> m"
  by (auto simp: deque_append_def Let_def)

lemma length_deque_extend:
  "length d \<le> m \<Longrightarrow> length (deque_extend m d vs) \<le> m"
  unfolding deque_extend_def
  by (induction vs arbitrary: d) (simp_all add: length_deque_append)

lemma length_deque_append_eq:
  "length d \<le> m \<Longrightarrow> length (deque_append m d v) = min m (length d + 1)"
  by (auto simp: deque_append_def Let_def)

lemma length_deque_extend_eq:
  "length d \<le> m \<Longrightarrow> length (deque_extend m d vs) = min m (length d + length vs)"
  unfolding deque_extend_def
proof (induction vs arbitrary: d)
  case Nil
  then show ?case by simp
next
  case (Cons v vs)
  have "length (deque_append m d v) \<le> m"
    using Cons.prems by (rule length_deque_append)
  from Cons.IH [OF this] show ?case
    using Cons.prems by (simp add: length_deque_append_eq min_def)
qed

lemma length_stride4: "length (stride4 a) = (length a + 3) div 4"
  by (simp add: stride4_def)

lemma apply_bandpass_full:
  assumes "length data = block_size" and "length fs = block_size div 2 + 1"
  shows "apply_bandpass fs data lo hi =
     Inr (irfft (map2 (\<lambda>s z. if s then 0 else z) (map (\<lambda>f. \<not> (f \<ge> lo \<and> f \<le> hi)) fs)
                  (rfft (map2 (*) data window))))"
  using assms
  by (simp add: apply_bandpass_def np_mul_window assign_zero_def length_rfft length_window
      Let_def comp_def)

lemma length_chunk:
  "length (take (min (p + frames) (length ys) - p) (drop p ys)) = min (p + frames) (length ys) - p"
  by (auto simp: min_def)

lemma callback_short_chunk:
  assumes "\<not> paused st" and "audio_position st < length (y st)"
    and "min (audio_position st + frames) (length (y st)) - audio_position st \<noteq> block_size"
  shows "audio_callback st frames = (Inl UnboundLocalError, st)"
proof -
  define chunk where "chunk = take (min (audio_position st + frames) (length (y st)) - audio_position st)
                  (drop (audio_position st) (y st))"
  have "length chunk \<noteq> block_size"
    using assms(3) unfolding chunk_def by (simp only: length_chunk not_False_eq_True)
  moreover have "\<not> (paused st \<or> audio_position st \<ge> length (y st))"
    using assms(1,2) by simp
  ultimately show ?thesis
    unfolding audio_callback_def Let_def chunk_def[symmetric] by simp
qed


lemma spectrum_db_full:
  "length v = block_size \<Longrightarrow>
     spectrum_db v = Inr (map (\<lambda>z. 20 * log 10 (cmod z + 1 / 10 ^ 9)) (rfft (map2 (*) v window)))"
  by (simp add: spectrum_db_def np_mul_window)

lemma apply_bandpass_length:
  assumes "length data = block_size" and "length fs = block_size div 2 + 1"
  shows "\<exists>out. apply_bandpass fs data lo hi = Inr out \<and> length out = block_size"
  using assms
  by (simp add: apply_bandpass_full length_irfft length_rfft length_window block_size_def)

lemma callback_full_chunk:
  assumes playing: "\<not> paused st"
    and room: "audio_position st + block_size \<le> length (y st)"
    and fs: "length (freqs st) = block_size div 2 + 1"
  shows "\<exists>out sp. length out = block_size
           \<and> (\<not> filter_enabled st \<longrightarrow> out = take block_size (drop (audio_position st) (y st)))
           \<and> (filter_enabled st \<longrightarrow>
                 apply_bandpass (freqs st) (take block_size (drop (audio_position st) (y st)))
                   (lowcut st) (highcut st) = Inr out)
           \<and> audio_callback st block_size =
               (Inr out,
                st\<lparr>time_buffer := deque_extend (display_samples st) (time_buffer st) (stride4 out),
                   spectrum_buffer := deque_append 10 (spectrum_buffer st) sp,
                   audio_position := audio_position st + block_size\<rparr>)"
proof -
  define chunk where "chunk = take block_size (drop (audio_position st) (y st))"
  have stop: "min (audio_position st + block_size) (length (y st)) = audio_position st + block_size"
    using room by simp
  have len: "length chunk = block_size"
    using room by (simp add: chunk_def)
  obtain out where out: "(if filter_enabled st
        then apply_bandpass (freqs st) chunk (lowcut st) (highcut st) else Inr chunk) = Inr out"
    and lout: "length out = block_size"
    using apply_bandpass_length [OF len fs] len by (cases "filter_enabled st") auto
  have sp: "spectrum_db out = Inr (map (\<lambda>z. 20 * log 10 (cmod z + 1 / 10 ^ 9)) (rfft (map2 (*) out window)))"
    using lout by (rule spectrum_db_full)
  have asg: "assign_out block_size out = Inr out"
    using lout by (simp add: assign_out_def)
  have go: "\<not> (paused st \<or> audio_position st \<ge> length (y st))"
    using playing room by (simp add: block_size_def)
  have "audio_callback st block_size =
               (Inr out,
                st\<lparr>time_buffer := deque_extend (display_samples st) (time_buffer st) (stride4 out),
                   spectrum_buffer := deque_append 10 (spectrum_buffer st)
                      (map (\<lambda>z. 20 * log 10 (cmod z + 1 / 10 ^ 9)) (rfft (map2 (*) out window))),
                   audio_position := audio_position st + block_size\<rparr>)"
  proof (cases "filter_enabled st")
    case True
    with out have "apply_bandpass (freqs st) chunk (lowcut st) (highcut st) = Inr out"
      by simp
    with True go len sp asg show ?thesis
      unfolding audio_callback_def Let_def stop diff_add_inverse chunk_def[symmetric]
      by simp
  next
    case False
    with out have "out = chunk" by simp
    with False go len sp asg show ?thesis
      unfolding audio_callback_def Let_def stop diff_add_inverse chunk_def[symmetric]
      by simp
  qed
  moreover have "\<not> filter_enabled st \<longrightarrow> out = chunk"
    using out by auto
  moreover have "filter_enabled st \<longrightarrow> apply_bandpass (freqs st) chunk (lowcut st) (highcut st) = Inr out"
    using out by auto
  ultimately show ?thesis
    using lout unfolding chunk_def by blast
qed


lemma clamp_cut_idem: "clamp_cut nyq (Finite (clamp_cut nyq v)) = clamp_cut nyq v"
  by (cases v) (auto simp: max_def min_def)

lemma update_lowcut_value_eq:
  "update_lowcut_value v st =
     (if clamp_cut (real (sr st) / 2) v > highcut st
      then st\<lparr>lowcut := clamp_cut (real (sr st) / 2) v, highcut := clamp_cut (real (sr st) / 2) v\<rparr>
      else st\<lparr>lowcut := clamp_cut (real (sr st) / 2) v\<rparr>)"
proof -
  let ?c = "clamp_cut (real (sr st) / 2) v"
  have "update_highcut_value (Finite ?c) (st\<lparr>lowcut := ?c\<rparr>) = st\<lparr>lowcut := ?c, highcut := ?c\<rparr>"
    by (subst update_highcut_value.simps) (simp add: clamp_cut_idem del: clamp_cut.simps)
  then show ?thesis
    by (subst update_lowcut_value.simps) simp
qed

lemma update_highcut_value_eq:
  "update_highcut_value v st =
     (if clamp_cut (real (sr st) / 2) v < lowcut st
      then st\<lparr>highcut := clamp_cut (real (sr st) / 2) v, lowcut := clamp_cut (real (sr st) / 2) v\<rparr>
      else st\<lparr>highcut := clamp_cut (real (sr st) / 2) v\<rparr>)"
proof -
  let ?c = "clamp_cut (real (sr st) / 2) v"
  have "update_lowcut_value (Finite ?c) (st\<lparr>highcut := ?c\<rparr>) = st\<lparr>highcut := ?c, lowcut := ?c\<rparr>"
    by (subst update_lowcut_value.simps) (simp add: clamp_cut_idem del: clamp_cut.simps)
  then show ?thesis
    by (subst update_highcut_value.simps) simp
qed

lemma step_freqs: "freqs (step e st) = freqs st"
proof (cases e)
  case (Callback frames)
  then show ?thesis
    by (simp add: audio_callback_def Let_def split: sum.splits)
next
  case (SetLowCut s)
  then show ?thesis
    by (simp add: update_lowcut_def update_lowcut_value_eq split: option.splits)
next
  case (SetHighCut s)
  then show ?thesis
    by (simp add: update_highcut_def update_highcut_value_eq split: option.splits)
next
  case (ChangeFile p)
  then show ?thesis
    by (simp add: change_file_def stop_stream_def reset_def Let_def split: pick.splits)
qed (simp_all add: toggle_play_def start_stream_def stop_stream_def reset_def toggle_filter_def)

lemma step_display_samples: "display_samples (step e st) = display_samples st"
proof (cases e)
  case (Callback frames)
  then show ?thesis
    by (simp add: audio_callback_def Let_def split: sum.splits)
next
  case (SetLowCut s)
  then show ?thesis
    by (simp add: update_lowcut_def update_lowcut_value_eq split: option.splits)
next
  case (SetHighCut s)
  then show ?thesis
    by (simp add: update_highcut_def update_highcut_value_eq split: option.splits)
next
  case (ChangeFile p)
  then show ?thesis
    by (simp add: change_file_def stop_stream_def reset_def Let_def split: pick.splits)
qed (simp_all add: toggle_play_def start_stream_def stop_stream_def reset_def toggle_filter_def)

lemma reachable_freqs:
  "reachable st \<Longrightarrow> \<exists>rate>0. freqs st = rfftfreq block_size (1 / real rate)
                                \<and> display_samples st = rate div 10"
proof (induction rule: reachable.induct)
  case (start samples rate st)
  then show ?case
    by (auto simp: run_visualizer_def initial_state_def split: if_splits)
next
  case (next_event st e)
  then show ?case
    by (simp add: step_freqs step_display_samples)
qed

lemma reachable_length_freqs: "reachable st \<Longrightarrow> length (freqs st) = block_size div 2 + 1"
  using reachable_freqs [of st] by (auto simp: length_rfftfreq)


lemma run_Nil: "run [] st = st"
  by (simp add: run_def)

lemma run_Cons: "run (e # evs) st = run evs (step e st)"
  by (simp add: run_def)

lemma run_append: "run (evs @ evs') st = run evs' (run evs st)"
  by (simp add: run_def)

lemma callbacks_position:
  assumes "\<not> paused st" and "length (freqs st) = block_size div 2 + 1"
    and "audio_position st + N * block_size \<le> length (y st)"
  shows "audio_position (run (replicate N (Callback block_size)) st)
           = audio_position st + N * block_size"
  using assms
proof (induction N arbitrary: st)
  case 0
  then show ?case by (simp add: run_Nil)
next
  case (Suc N)
  have room: "audio_position st + block_size \<le> length (y st)"
    using Suc.prems(3) by simp
  obtain out sp where cb: "audio_callback st block_size =
               (Inr out,
                st\<lparr>time_buffer := deque_extend (display_samples st) (time_buffer st) (stride4 out),
                   spectrum_buffer := deque_append 10 (spectrum_buffer st) sp,
                   audio_position := audio_position st + block_size\<rparr>)"
    using callback_full_chunk [OF Suc.prems(1) room Suc.prems(2)] by blast
  define st1 where "st1 = step (Callback block_size) st"
  have st1: "\<not> paused st1" "length (freqs st1) = block_size div 2 + 1"
    "y st1 = y st" "audio_position st1 = audio_position st + block_size"
    using cb Suc.prems(1,2) by (simp_all add: st1_def)
  have "audio_position st1 + N * block_size \<le> length (y st1)"
    using Suc.prems(3) st1 by simp
  from Suc.IH [OF st1(1) st1(2) this] show ?case
    using st1 by (simp add: run_Cons st1_def)
qed

section \<open>A short trailing chunk\<close>

text \<open>
  C1. The claim is that a chunk shorter than the block size is written to the output
  unfiltered and that the callback does not throw. On a playing source of 100 samples,
  with the filter enabled, a callback for 2048 frames leaves by UnboundLocalError
  instead: nothing is written, and no variable has changed.
\<close>

theorem short_trailing_chunk_raises:
  "audio_callback
     (toggle_filter (toggle_play (initial_state (replicate 100 (1 / 2)) 44100))) 2048
   = (Inl UnboundLocalError,
      toggle_filter (toggle_play (initial_state (replicate 100 (1 / 2)) 44100)))"
  by (rule callback_short_chunk)
     (simp_all add: toggle_filter_def toggle_play_def start_stream_def initial_state_def
        block_size_def)

section \<open>The position after several callbacks\<close>

text \<open>
  C3. The claim is that the position after \<open>N\<close> callbacks of \<open>f\<close> frames is
  \<open>min (N * f) L\<close>. On a playing source of 3000 samples, two callbacks of 2048 frames
  leave the position at 2048, not at 3000: the second callback, which starts before the
  end of the samples, raises before it assigns the position.
\<close>

theorem position_stays_before_short_chunk:
  "audio_position
     (run [Callback 2048, Callback 2048] (toggle_play (initial_state (replicate 3000 0) 44100)))
   = 2048
   \<and> min (2 * 2048) (length (y (toggle_play (initial_state (replicate 3000 0) 44100)))) = 3000"
proof -
  define st0 where "st0 = toggle_play (initial_state (replicate 3000 0) 44100)"
  have st0: "\<not> paused st0" "length (y st0) = 3000" "audio_position st0 = 0"
    "length (freqs st0) = block_size div 2 + 1"
    by (simp_all add: st0_def toggle_play_def start_stream_def initial_state_def
        length_rfftfreq)
  have room: "audio_position st0 + block_size \<le> length (y st0)"
    using st0 by (simp add: block_size_def)
  obtain out sp where cb: "audio_callback st0 block_size =
               (Inr out,
                st0\<lparr>time_buffer := deque_extend (display_samples st0) (time_buffer st0) (stride4 out),
                   spectrum_buffer := deque_append 10 (spectrum_buffer st0) sp,
                   audio_position := audio_position st0 + block_size\<rparr>)"
    using callback_full_chunk [OF st0(1) room st0(4)] by blast
  define st1 where "st1 = step (Callback 2048) st0"
  have st1: "\<not> paused st1" "length (y st1) = 3000" "audio_position st1 = 2048"
    using cb st0 by (simp_all add: st1_def block_size_def)
  have "audio_callback st1 2048 = (Inl UnboundLocalError, st1)"
    by (rule callback_short_chunk) (simp_all add: st1 block_size_def)
  then have "step (Callback 2048) st1 = st1"
    by simp
  then have "audio_position (run [Callback 2048, Callback 2048] st0) = 2048"
    using st1 by (simp add: run_Cons run_Nil st1_def)
  then show ?thesis
    using st0 by (simp add: st0_def)
qed

section \<open>Changing the file\<close>

text \<open>
  C8. \<^verbatim>\<open>change_file\<close> while playing: the stream is stopped and closed. When no file
  is loaded, the samples, the rate, the position and both buffers stay as they were; when
  a file is loaded, they are the new samples and rate, position 0 and two empty buffers.
  In both cases the engine ends paused and the filter switch and both cutoffs are those
  from before.
\<close>

theorem change_file_while_playing:
  assumes "\<not> paused st" and "stream st = Running"
  shows "paused (change_file p st) \<and> stream (change_file p st) = Closed
    \<and> filter_enabled (change_file p st) = filter_enabled st
    \<and> lowcut (change_file p st) = lowcut st
    \<and> highcut (change_file p st) = highcut st
    \<and> (case p of
          Loaded samples rate \<Rightarrow>
            y (change_file p st) = samples \<and> sr (change_file p st) = rate
            \<and> audio_position (change_file p st) = 0
            \<and> time_buffer (change_file p st) = []
            \<and> spectrum_buffer (change_file p st) = []
        | _ \<Rightarrow>
            y (change_file p st) = y st \<and> sr (change_file p st) = sr st
            \<and> audio_position (change_file p st) = audio_position st
            \<and> time_buffer (change_file p st) = time_buffer st
            \<and> spectrum_buffer (change_file p st) = spectrum_buffer st)"
  using assms
  by (cases p) (simp_all add: change_file_def stop_stream_def reset_def)

theorem change_file_while_playing_witness:
  "\<not> paused (toggle_play (initial_state [1, 2, 3] 44100))
   \<and> stream (toggle_play (initial_state [1, 2, 3] 44100)) = Running
   \<and> paused (change_file (Loaded [4, 5] 8000) (toggle_play (initial_state [1, 2, 3] 44100)))
   \<and> highcut (change_file (Loaded [4, 5] 8000) (toggle_play (initial_state [1, 2, 3] 44100)))
       = highcut (toggle_play (initial_state [1, 2, 3] 44100))
   \<and> y (change_file (Loaded [4, 5] 8000) (toggle_play (initial_state [1, 2, 3] 44100))) = [4, 5]
   \<and> audio_position
        (change_file (Loaded [4, 5] 8000) (toggle_play (initial_state [1, 2, 3] 44100))) = 0"
proof -
  have playing: "\<not> paused (toggle_play (initial_state [1, 2, 3] 44100))"
    by (simp add: toggle_play_def start_stream_def initial_state_def)
  have running: "stream (toggle_play (initial_state [1, 2, 3] 44100)) = Running"
    by (simp add: toggle_play_def start_stream_def initial_state_def)
  from playing running
    change_file_while_playing [OF playing running, of "Loaded [4, 5] 8000"]
  show ?thesis
    by simp
qed

section \<open>The length of the filtered block\<close>

text \<open>
  C9. The block size is 2048, and in every reachable state \<^verbatim>\<open>apply_bandpass\<close> returns,
  for a block of that length and any two cutoffs, a block of that length.
\<close>

theorem apply_bandpass_block_size:
  assumes "reachable st" and "length data = block_size"
  shows "block_size = 2048
    \<and> (\<exists>out. apply_bandpass (freqs st) data lo hi = Inr out \<and> length out = block_size)"
  using apply_bandpass_length [OF assms(2) reachable_length_freqs [OF assms(1)]]
  by (simp add: block_size_def)


theorem apply_bandpass_block_size_witness:
  "reachable (initial_state [] 44100) \<and> length (replicate 2048 (0::real)) = block_size
   \<and> (\<exists>out. apply_bandpass (freqs (initial_state [] 44100)) (replicate 2048 0) 100 1000 = Inr out
          \<and> length out = block_size)"
proof -
  have r: "reachable (initial_state [] 44100)"
    by (rule reachable.start [of "[]" 44100]) (simp add: run_visualizer_def)
  have l: "length (replicate 2048 (0::real)) = block_size"
    by (simp add: block_size_def)
  from r l apply_bandpass_block_size [OF r l, of 100 1000] show ?thesis
    by blast
qed

section \<open>Editing the cutoffs\<close>






lemma float_of_text_nan: "float_of_text ''nan'' = Some NaN"
  by code_simp






section \<open>The bounds of the rolling buffers\<close>

lemma callback_buffers:
  assumes "length (time_buffer st) \<le> display_samples st"
    and "length (spectrum_buffer st) \<le> 10"
  shows "length (time_buffer (snd (audio_callback st frames))) \<le> display_samples st
       \<and> length (spectrum_buffer (snd (audio_callback st frames))) \<le> 10"
  using assms
  by (simp add: audio_callback_def Let_def length_deque_extend length_deque_append
      split: sum.splits)

lemma step_buffers:
  assumes "length (time_buffer st) \<le> display_samples st"
    and "length (spectrum_buffer st) \<le> 10"
  shows "length (time_buffer (step e st)) \<le> display_samples (step e st)
       \<and> length (spectrum_buffer (step e st)) \<le> 10"
proof (cases e)
  case (Callback frames)
  then show ?thesis
    using callback_buffers [OF assms, of frames] step_display_samples [of "Callback frames" st]
    by simp
next
  case (SetLowCut s)
  then show ?thesis
    using assms by (simp add: update_lowcut_def update_lowcut_value_eq split: option.splits)
next
  case (SetHighCut s)
  then show ?thesis
    using assms by (simp add: update_highcut_def update_highcut_value_eq split: option.splits)
next
  case (ChangeFile p)
  then show ?thesis
    using assms
    by (simp add: change_file_def stop_stream_def reset_def Let_def split: pick.splits)
next
  case TogglePlay
  then show ?thesis
    using assms by (simp add: toggle_play_def start_stream_def stop_stream_def)
next
  case Reset
  then show ?thesis
    by (simp add: reset_def)
next
  case ToggleFilter
  then show ?thesis
    using assms by (simp add: toggle_filter_def)
qed

lemma reachable_buffers:
  "reachable st \<Longrightarrow>
     length (time_buffer st) \<le> display_samples st \<and> length (spectrum_buffer st) \<le> 10"
proof (induction rule: reachable.induct)
  case (start samples rate st)
  then show ?case
    by (auto simp: run_visualizer_def initial_state_def split: if_splits)
next
  case (next_event st e)
  then show ?case
    using step_buffers by blast
qed

text \<open>
  C4. The claim bounds the time buffer by a tenth of the current sample rate. After a
  first file at 44100 Hz, a change to a file of 4096 samples at 8000 Hz, the play button
  and two callbacks of 2048 frames, the rate is 8000 and the time buffer holds 1024
  samples, more than 800: its \<^verbatim>\<open>maxlen\<close> is still 4410, from the first file.
\<close>

theorem time_buffer_exceeds_tenth_of_rate:
  "sr (run [ChangeFile (Loaded (replicate 4096 0) 8000), TogglePlay,
            Callback 2048, Callback 2048] (initial_state [] 44100)) = 8000
   \<and> length (time_buffer
        (run [ChangeFile (Loaded (replicate 4096 0) 8000), TogglePlay,
              Callback 2048, Callback 2048] (initial_state [] 44100))) = 1024
   \<and> display_samples
        (run [ChangeFile (Loaded (replicate 4096 0) 8000), TogglePlay,
              Callback 2048, Callback 2048] (initial_state [] 44100)) = 4410"
proof -
  define st0 where
    "st0 = run [ChangeFile (Loaded (replicate 4096 0) 8000), TogglePlay] (initial_state [] 44100)"
  have st0: "\<not> paused st0" "length (y st0) = 4096" "audio_position st0 = 0"
    "length (freqs st0) = block_size div 2 + 1" "sr st0 = 8000" "display_samples st0 = 4410"
    "time_buffer st0 = []"
    by (simp_all add: st0_def run_Cons run_Nil change_file_def stop_stream_def reset_def
        toggle_play_def start_stream_def initial_state_def length_rfftfreq)
  have room0: "audio_position st0 + block_size \<le> length (y st0)"
    using st0 by (simp add: block_size_def)
  obtain out0 sp0 where cb0: "length out0 = block_size"
    "audio_callback st0 block_size =
       (Inr out0,
        st0\<lparr>time_buffer := deque_extend (display_samples st0) (time_buffer st0) (stride4 out0),
            spectrum_buffer := deque_append 10 (spectrum_buffer st0) sp0,
            audio_position := audio_position st0 + block_size\<rparr>)"
    using callback_full_chunk [OF st0(1) room0 st0(4)] by blast
  define st1 where "st1 = step (Callback 2048) st0"
  have st1: "\<not> paused st1" "length (y st1) = 4096" "audio_position st1 = 2048"
    "length (freqs st1) = block_size div 2 + 1" "sr st1 = 8000" "display_samples st1 = 4410"
    "length (time_buffer st1) = 512"
    using cb0 st0
    by (simp_all add: st1_def block_size_def length_deque_extend_eq length_stride4)
  have room1: "audio_position st1 + block_size \<le> length (y st1)"
    using st1 by (simp add: block_size_def)
  obtain out1 sp1 where cb1: "length out1 = block_size"
    "audio_callback st1 block_size =
       (Inr out1,
        st1\<lparr>time_buffer := deque_extend (display_samples st1) (time_buffer st1) (stride4 out1),
            spectrum_buffer := deque_append 10 (spectrum_buffer st1) sp1,
            audio_position := audio_position st1 + block_size\<rparr>)"
    using callback_full_chunk [OF st1(1) room1 st1(4)] by blast
  define st2 where "st2 = step (Callback 2048) st1"
  have st2: "sr st2 = 8000" "display_samples st2 = 4410" "length (time_buffer st2) = 1024"
    using cb1 st1
    by (simp_all add: st2_def block_size_def length_deque_extend_eq length_stride4)
  have "run [ChangeFile (Loaded (replicate 4096 0) 8000), TogglePlay,
             Callback 2048, Callback 2048] (initial_state [] 44100) = st2"
    by (simp add: st2_def st1_def st0_def run_Cons run_Nil)
  with st2 show ?thesis
    by simp
qed

section \<open>The order and the range of the cutoffs\<close>


lemma reachable_initial: "0 < rate \<Longrightarrow> reachable (initial_state samples rate)"
  by (rule reachable.start [of samples rate]) (simp add: run_visualizer_def)









section \<open>Sums of roots of unity\<close>

lemma cis_turn_neq_1:
  assumes "0 < d" and "d < n"
  shows "cis (2 * pi * real d / real n) \<noteq> 1"
proof
  assume "cis (2 * pi * real d / real n) = 1"
  then have "cos (2 * pi * real d / real n) = 1"
    by (simp add: complex_eq_iff)
  then obtain k :: int where k: "2 * pi * real d / real n = real_of_int k * 2 * pi"
    using cos_one_2pi_int by blast
  have npos: "0 < real n"
    using assms by simp
  from k npos have eq: "real d = real_of_int k * real n"
    by (simp add: field_simps)
  then have "real_of_int (int d) = real_of_int (k * int n)"
    by simp
  then have dk: "int d = k * int n"
    by (simp only: of_int_eq_iff)
  have "0 < k"
  proof (rule ccontr)
    assume "\<not> 0 < k"
    then have "k * int n \<le> 0"
      by (simp add: mult_le_0_iff)
    with dk assms(1) show False by simp
  qed
  then have "int n \<le> k * int n"
    by (simp add: mult_le_cancel_right1)
  with dk assms(2) show False by simp
qed

lemma unit_sum_zero:
  assumes "0 < d" and "d < n"
  shows "(\<Sum>i<n. cis (2 * pi * real i * real d / real n)) = 0"
proof -
  define w where "w = cis (2 * pi * real d / real n)"
  have w1: "w \<noteq> 1"
    unfolding w_def using assms by (rule cis_turn_neq_1)
  have npos: "real n \<noteq> 0"
    using assms by simp
  have "w ^ n = cis (real n * (2 * pi * real d / real n))"
    by (simp add: w_def DeMoivre)
  also have "real n * (2 * pi * real d / real n) = 2 * pi * real d"
    using npos by simp
  also have "cis (2 * pi * real d) = 1"
    by (rule cis_multiple_2pi) simp
  finally have wn: "w ^ n = 1" .
  have "(\<Sum>i<n. cis (2 * pi * real i * real d / real n)) = (\<Sum>i<n. w ^ i)"
    by (rule sum.cong) (simp_all add: w_def DeMoivre mult_ac)
  also have "\<dots> = (1 - w ^ n) / (1 - w)"
    using w1 by (simp add: sum_gp_strict)
  finally show ?thesis
    by (simp add: wn)
qed

lemma unit_sum:
  assumes "d < n"
  shows "(\<Sum>i<n. cis (2 * pi * real i * real d / real n)) = (if d = 0 then of_nat n else 0)"
  using assms unit_sum_zero [of d n] by (cases "d = 0") simp_all

lemma unit_sum_neg:
  assumes "d < n"
  shows "(\<Sum>i<n. cis (- (2 * pi * real i * real d / real n))) = (if d = 0 then of_nat n else 0)"
proof -
  have "(\<Sum>i<n. cis (- (2 * pi * real i * real d / real n)))
          = cnj (\<Sum>i<n. cis (2 * pi * real i * real d / real n))"
    by (simp add: cis_cnj)
  then show ?thesis
    using unit_sum [OF assms] by simp
qed

text \<open>The product of a forward and a backward rotation, summed over a full turn.\<close>

lemma unit_sum_diff:
  assumes "k < n" and "l < n"
  shows "(\<Sum>i<n. cis (2 * pi * real i * real l / real n)
                * cis (- (2 * pi * real i * real k / real n)))
           = (if l = k then of_nat n else 0)"
proof (cases "k \<le> l")
  case True
  have "(\<Sum>i<n. cis (2 * pi * real i * real l / real n)
                * cis (- (2 * pi * real i * real k / real n)))
        = (\<Sum>i<n. cis (2 * pi * real i * real (l - k) / real n))"
  proof (intro sum.cong refl)
    fix i
    have "2 * pi * real i * real l / real n + - (2 * pi * real i * real k / real n)
            = 2 * pi * real i * real (l - k) / real n"
      using True by (simp add: diff_divide_distrib algebra_simps)
    then show "cis (2 * pi * real i * real l / real n)
                * cis (- (2 * pi * real i * real k / real n))
               = cis (2 * pi * real i * real (l - k) / real n)"
      by (simp only: cis_mult)
  qed
  also have "\<dots> = (if l - k = 0 then of_nat n else 0)"
    using assms by (intro unit_sum) simp
  finally show ?thesis
    using True by auto
next
  case False
  have "(\<Sum>i<n. cis (2 * pi * real i * real l / real n)
                * cis (- (2 * pi * real i * real k / real n)))
        = (\<Sum>i<n. cis (- (2 * pi * real i * real (k - l) / real n)))"
  proof (intro sum.cong refl)
    fix i
    have "2 * pi * real i * real l / real n + - (2 * pi * real i * real k / real n)
            = - (2 * pi * real i * real (k - l) / real n)"
      using False by (simp add: diff_divide_distrib algebra_simps)
    then show "cis (2 * pi * real i * real l / real n)
                * cis (- (2 * pi * real i * real k / real n))
               = cis (- (2 * pi * real i * real (k - l) / real n))"
      by (simp only: cis_mult)
  qed
  also have "\<dots> = (if k - l = 0 then of_nat n else 0)"
    using assms by (intro unit_sum_neg) simp
  finally show ?thesis
    using False by auto
qed

lemma unit_sum_add:
  assumes "0 < k + l" and "k + l < n"
  shows "(\<Sum>i<n. cis (- (2 * pi * real i * real l / real n))
                * cis (- (2 * pi * real i * real k / real n))) = 0"
proof -
  have "(\<Sum>i<n. cis (- (2 * pi * real i * real l / real n))
                * cis (- (2 * pi * real i * real k / real n)))
        = (\<Sum>i<n. cis (- (2 * pi * real i * real (k + l) / real n)))"
  proof (intro sum.cong refl)
    fix i
    have "- (2 * pi * real i * real l / real n) + - (2 * pi * real i * real k / real n)
            = - (2 * pi * real i * real (k + l) / real n)"
      by (simp add: add_divide_distrib algebra_simps)
    then show "cis (- (2 * pi * real i * real l / real n))
                * cis (- (2 * pi * real i * real k / real n))
               = cis (- (2 * pi * real i * real (k + l) / real n))"
      by (simp only: cis_mult)
  qed
  also have "\<dots> = 0"
    using assms unit_sum_neg [of "k + l" n] by simp
  finally show ?thesis .
qed


section \<open>The forward transform of an inverse transform\<close>

lemma irfft_nth:
  assumes "length Z = h + 1" and "i < 2 * h"
  shows "irfft Z ! i =
     (Re (Z ! 0)
      + (\<Sum>l = 1..<h. 2 * Re (Z ! l * cis (2 * pi * real i * real l / real (2 * h))))
      + Re (Z ! h) * cos (pi * real i)) / real (2 * h)"
  using assms by (simp add: irfft_def Let_def del: upt_Suc)

lemma rfft_nth:
  assumes "k < length x div 2 + 1"
  shows "rfft x ! k =
     (\<Sum>j<length x. complex_of_real (x ! j)
         * cis (- (2 * pi * real j * real k / real (length x))))"
  using assms by (simp add: rfft_def Let_def del: upt_Suc)

lemma of_real_twice_Re: "complex_of_real (2 * Re w) = w + cnj w"
  by (simp add: complex_eq_iff)

lemma of_real_cos_pi: "complex_of_real (cos (pi * real i)) = cis (pi * real i)"
  by (simp add: complex_eq_iff)

lemma irfft_nth_complex:
  assumes "length Z = h + 1" and "i < 2 * h"
  shows "complex_of_real (irfft Z ! i) =
     (complex_of_real (Re (Z ! 0))
      + (\<Sum>l = 1..<h. Z ! l * cis (2 * pi * real i * real l / real (2 * h))
                      + cnj (Z ! l) * cis (- (2 * pi * real i * real l / real (2 * h))))
      + complex_of_real (Re (Z ! h)) * cis (2 * pi * real i * real h / real (2 * h)))
     / of_nat (2 * h)"
proof -
  have hpos: "0 < h"
    using assms(2) by simp
  have angle: "2 * pi * real i * real h / real (2 * h) = pi * real i"
    using hpos by simp
  have two_re: "complex_of_real (2 * Re (Z ! l * cis t)) = Z ! l * cis t + cnj (Z ! l) * cis (- t)"
    for l t
    by (simp only: of_real_twice_Re complex_cnj_mult cis_cnj)
  have inner: "complex_of_real
          (\<Sum>l = 1..<h. 2 * Re (Z ! l * cis (2 * pi * real i * real l / real (2 * h))))
        = (\<Sum>l = 1..<h. Z ! l * cis (2 * pi * real i * real l / real (2 * h))
                      + cnj (Z ! l) * cis (- (2 * pi * real i * real l / real (2 * h))))"
    by (simp only: of_real_sum two_re)
  show ?thesis
    unfolding irfft_nth [OF assms] angle
    by (simp only: of_real_divide of_real_add inner of_real_mult of_real_cos_pi
        of_real_of_nat_eq)
qed


lemma rfft_irfft_nth:
  assumes len: "length Z = h + 1" and hpos: "0 < h" and k: "k \<le> h"
  shows "rfft (irfft Z) ! k =
     (if k = 0 then complex_of_real (Re (Z ! 0))
      else if k = h then complex_of_real (Re (Z ! h))
      else Z ! k)"
proof -
  define n where "n = 2 * h"
  define c where "c i l = cis (2 * pi * real i * real l / real n)" for i l
  define c' where "c' i l = cis (- (2 * pi * real i * real l / real n))" for i l
  define A where "A = complex_of_real (Re (Z ! 0))"
  define B where "B = complex_of_real (Re (Z ! h))"
  have npos: "0 < n" and kn: "k < n" and hn: "h < n"
    using hpos k by (simp_all add: n_def)
  have leny: "length (irfft Z) = n"
    using len by (simp add: length_irfft n_def)
  have bin: "k < length (irfft Z) div 2 + 1"
    using k by (simp add: leny n_def)
  have "rfft (irfft Z) ! k = (\<Sum>i<n. complex_of_real (irfft Z ! i) * c' i k)"
    using rfft_nth [OF bin] by (simp add: leny c'_def)
  also have "\<dots> = (\<Sum>i<n. (A + (\<Sum>l = 1..<h. Z ! l * c i l + cnj (Z ! l) * c' i l) + B * c i h)
                          / of_nat n * c' i k)"
  proof (intro sum.cong refl)
    fix i assume "i \<in> {..<n}"
    then have "i < 2 * h"
      by (simp add: n_def)
    from irfft_nth_complex [OF len this]
    show "complex_of_real (irfft Z ! i) * c' i k
            = (A + (\<Sum>l = 1..<h. Z ! l * c i l + cnj (Z ! l) * c' i l) + B * c i h)
                / of_nat n * c' i k"
      by (simp add: A_def B_def c_def c'_def n_def)
  qed
  also have "\<dots> = (\<Sum>i<n. (A * c' i k
                           + (\<Sum>l = 1..<h. Z ! l * (c i l * c' i k)
                                           + cnj (Z ! l) * (c' i l * c' i k))
                           + B * (c i h * c' i k)) / of_nat n)"
  proof (intro sum.cong refl)
    fix i
    have "(\<Sum>l = 1..<h. Z ! l * c i l + cnj (Z ! l) * c' i l) * c' i k
            = (\<Sum>l = 1..<h. Z ! l * (c i l * c' i k) + cnj (Z ! l) * (c' i l * c' i k))"
      by (simp add: sum_distrib_right distrib_right mult.assoc)
    then show "(A + (\<Sum>l = 1..<h. Z ! l * c i l + cnj (Z ! l) * c' i l) + B * c i h)
                 / of_nat n * c' i k
               = (A * c' i k
                  + (\<Sum>l = 1..<h. Z ! l * (c i l * c' i k) + cnj (Z ! l) * (c' i l * c' i k))
                  + B * (c i h * c' i k)) / of_nat n"
      by (simp add: distrib_right mult.assoc)
  qed
  also have "\<dots> = (A * (\<Sum>i<n. c' i k)
                    + (\<Sum>l = 1..<h. Z ! l * (\<Sum>i<n. c i l * c' i k)
                                    + cnj (Z ! l) * (\<Sum>i<n. c' i l * c' i k))
                    + B * (\<Sum>i<n. c i h * c' i k)) / of_nat n"
  proof -
    have "(\<Sum>i<n. \<Sum>l = 1..<h. Z ! l * (c i l * c' i k) + cnj (Z ! l) * (c' i l * c' i k))
            = (\<Sum>l = 1..<h. Z ! l * (\<Sum>i<n. c i l * c' i k)
                            + cnj (Z ! l) * (\<Sum>i<n. c' i l * c' i k))"
      by (subst sum.swap) (simp add: sum.distrib sum_distrib_left)
    then show ?thesis
      by (simp add: sum_divide_distrib [symmetric] sum.distrib sum_distrib_left)
  qed
  also have "(\<Sum>i<n. c' i k) = (if k = 0 then of_nat n else 0)"
    unfolding c'_def using kn by (rule unit_sum_neg)
  also have "(\<Sum>i<n. c i h * c' i k) = (if h = k then of_nat n else 0)"
    unfolding c_def c'_def using kn hn by (rule unit_sum_diff)
  also have "(\<Sum>l = 1..<h. Z ! l * (\<Sum>i<n. c i l * c' i k)
                         + cnj (Z ! l) * (\<Sum>i<n. c' i l * c' i k))
               = (\<Sum>l = 1..<h. if l = k then Z ! l * of_nat n else 0)"
  proof (intro sum.cong refl)
    fix l assume "l \<in> {1..<h}"
    then have l: "0 < l" "l < h"
      by simp_all
    have "(\<Sum>i<n. c i l * c' i k) = (if l = k then of_nat n else 0)"
      unfolding c_def c'_def using kn l hn by (intro unit_sum_diff) simp_all
    moreover have "(\<Sum>i<n. c' i l * c' i k) = 0"
      unfolding c'_def using l k by (intro unit_sum_add) (simp_all add: n_def)
    ultimately show "Z ! l * (\<Sum>i<n. c i l * c' i k) + cnj (Z ! l) * (\<Sum>i<n. c' i l * c' i k)
                       = (if l = k then Z ! l * of_nat n else 0)"
      by simp
  qed
  also have "(\<Sum>l = 1..<h. if l = k then Z ! l * of_nat n else 0)
               = (if k \<in> {1..<h} then Z ! k * of_nat n else 0)"
    by simp
  finally have "rfft (irfft Z) ! k
      = (A * (if k = 0 then of_nat n else 0)
         + (if k \<in> {1..<h} then Z ! k * of_nat n else 0)
         + B * (if h = k then of_nat n else 0)) / of_nat n" .
  then show ?thesis
    using npos hpos k by (auto simp: A_def B_def)
qed


section \<open>The inverse transform of a forward transform\<close>

lemma sum_mirror:
  fixes g :: "nat \<Rightarrow> complex"
  assumes "0 < h"
  shows "(\<Sum>l<2 * h. g l) = g 0 + (\<Sum>l = 1..<h. g l + g (2 * h - l)) + g h"
proof -
  have split: "{..<2 * h} = {0} \<union> {1..<h} \<union> {h} \<union> {h + 1..<2 * h}"
    using assms by auto
  have upper: "(\<Sum>l = h + 1..<2 * h. g l) = (\<Sum>l = 1..<h. g (2 * h - l))"
    by (rule sum.reindex_bij_witness [of _ "\<lambda>l. 2 * h - l" "\<lambda>l. 2 * h - l"]) auto
  have "(\<Sum>l<2 * h. g l)
          = g 0 + (\<Sum>l = 1..<h. g l) + g h + (\<Sum>l = h + 1..<2 * h. g l)"
    unfolding split using assms
    by (subst sum.union_disjoint, simp, simp, force)+ simp
  then show ?thesis
    using upper by (simp add: sum.distrib)
qed


lemma rfft_first_real:
  assumes "0 < length x"
  shows "complex_of_real (Re (rfft x ! 0)) = rfft x ! 0"
proof -
  have "rfft x ! 0 = (\<Sum>j<length x. complex_of_real (x ! j))"
    using rfft_nth [of 0 x] by simp
  then show ?thesis
    by (simp add: complex_eq_iff)
qed

lemma rfft_last_real:
  assumes "length x = 2 * h" and "0 < h"
  shows "complex_of_real (Re (rfft x ! h)) = rfft x ! h"
proof -
  have "rfft x ! h = (\<Sum>j<2 * h. complex_of_real (x ! j)
                        * cis (- (2 * pi * real j * real h / real (2 * h))))"
    using rfft_nth [of h x] assms by simp
  also have "\<dots> = (\<Sum>j<2 * h. complex_of_real (x ! j) * cis (- (pi * real j)))"
    using assms(2) by simp
  finally show ?thesis
    by (simp add: complex_eq_iff)
qed

lemma irfft_rfft_nth:
  assumes len: "length x = 2 * h" and hpos: "0 < h" and i: "i < 2 * h"
  shows "irfft (rfft x) ! i = x ! i"
proof -
  define n where "n = 2 * h"
  define c where "c a l = cis (2 * pi * real a * real l / real n)" for a l
  define c' where "c' a l = cis (- (2 * pi * real a * real l / real n))" for a l
  define X where "X = rfft x"
  have npos: "0 < n" and "i < n"
    using hpos i by (simp_all add: n_def)
  have lenX: "length X = h + 1"
    using len by (simp add: X_def length_rfft)
  have bins: "X ! l = (\<Sum>j<n. complex_of_real (x ! j) * c' j l)" if "l \<le> h" for l
    using that rfft_nth [of l x] len by (simp add: X_def c'_def n_def)
  have cbins: "cnj (X ! l) = (\<Sum>j<n. complex_of_real (x ! j) * c j l)" if "l \<le> h" for l
    using bins [OF that] by (simp add: c_def c'_def cis_cnj)
  have first: "complex_of_real (Re (X ! 0)) = X ! 0"
    unfolding X_def using len hpos by (intro rfft_first_real) simp
  have last: "complex_of_real (Re (X ! h)) = X ! h"
    unfolding X_def using len hpos by (rule rfft_last_real)
  define g where "g j l = c i l * c' j l" for j l
  have g0: "g j 0 = 1" for j
    by (simp add: g_def c_def c'_def)
  have mirror: "g j (2 * h - l) = c' i l * c j l" if "l \<le> 2 * h" for j l
  proof -
    define r where "r = real (2 * h - l)"
    have r: "r = real n - real l"
      using that by (simp add: r_def n_def)
    have "2 * pi * real i * r / real n
                 = 2 * pi * real i + - (2 * pi * real i * real l / real n)"
      and "- (2 * pi * real j * r / real n)
                 = - (2 * pi * real j) + 2 * pi * real j * real l / real n"
      using npos unfolding r by (simp_all add: field_simps)
    then have "g j (2 * h - l)
        = cis (2 * pi * real i) * cis (- (2 * pi * real i * real l / real n))
          * (cis (- (2 * pi * real j)) * cis (2 * pi * real j * real l / real n))"
      by (simp only: g_def c_def c'_def cis_mult r_def)
    moreover have "cis (2 * pi * real i) = 1"
      by (rule cis_multiple_2pi) simp
    moreover have "cis (- (2 * pi * real j)) = 1"
      using cis_multiple_2pi [of "real j"] by (simp add: cis_cnj [symmetric])
    ultimately show ?thesis
      by (simp add: c_def c'_def)
  qed
  have turn: "(\<Sum>l<n. g j l) = (if i = j then of_nat n else 0)" if "j < n" for j
  proof -
    have "(\<Sum>l<n. g j l) = (\<Sum>l<n. cis (2 * pi * real l * real i / real n)
                                 * cis (- (2 * pi * real l * real j / real n)))"
      by (simp add: g_def c_def c'_def mult_ac)
    also have "\<dots> = (if i = j then of_nat n else 0)"
      using that \<open>i < n\<close> by (rule unit_sum_diff)
    finally show ?thesis .
  qed
  have "complex_of_real (irfft X ! i)
      = (X ! 0 + (\<Sum>l = 1..<h. X ! l * c i l + cnj (X ! l) * c' i l) + X ! h * c i h) / of_nat n"
    using irfft_nth_complex [OF lenX i] by (simp add: first last c_def c'_def n_def)
  also have "X ! 0 = (\<Sum>j<n. complex_of_real (x ! j) * g j 0)"
    using bins [of 0] by (simp add: g0 c'_def)
  also have "X ! h * c i h = (\<Sum>j<n. complex_of_real (x ! j) * g j h)"
    using bins [of h] by (simp add: g_def sum_distrib_right sum_distrib_left mult_ac)
  also have "(\<Sum>l = 1..<h. X ! l * c i l + cnj (X ! l) * c' i l)
      = (\<Sum>j<n. complex_of_real (x ! j) * (\<Sum>l = 1..<h. g j l + g j (2 * h - l)))"
  proof -
    have "(\<Sum>l = 1..<h. X ! l * c i l + cnj (X ! l) * c' i l)
        = (\<Sum>l = 1..<h. \<Sum>j<n. complex_of_real (x ! j) * (g j l + g j (2 * h - l)))"
    proof (intro sum.cong refl)
      fix l assume "l \<in> {1..<h}"
      then have l: "l \<le> h" "l \<le> 2 * h"
        by simp_all
      have fwd: "X ! l * c i l = (\<Sum>j<n. complex_of_real (x ! j) * g j l)"
        unfolding bins [OF l(1)] g_def by (simp add: sum_distrib_right sum_distrib_left mult_ac)
      have bwd: "cnj (X ! l) * c' i l = (\<Sum>j<n. complex_of_real (x ! j) * g j (2 * h - l))"
        unfolding cbins [OF l(1)] mirror [OF l(2)]
        by (simp add: sum_distrib_right sum_distrib_left mult_ac)
      show "X ! l * c i l + cnj (X ! l) * c' i l
              = (\<Sum>j<n. complex_of_real (x ! j) * (g j l + g j (2 * h - l)))"
        unfolding fwd bwd by (simp add: sum.distrib distrib_left)
    qed
    also have "\<dots> = (\<Sum>j<n. \<Sum>l = 1..<h. complex_of_real (x ! j) * (g j l + g j (2 * h - l)))"
      by (rule sum.swap)
    finally show ?thesis
      by (simp add: sum_distrib_left)
  qed
  finally have "complex_of_real (irfft X ! i)
      = (\<Sum>j<n. complex_of_real (x ! j)
                 * (g j 0 + (\<Sum>l = 1..<h. g j l + g j (2 * h - l)) + g j h)) / of_nat n"
    by (simp add: sum.distrib distrib_left)
  also have "\<dots> = (\<Sum>j<n. complex_of_real (x ! j) * (\<Sum>l<n. g j l)) / of_nat n"
    using sum_mirror [OF hpos] by (simp add: n_def)
  also have "\<dots> = (\<Sum>j<n. if i = j then complex_of_real (x ! j) * of_nat n else 0) / of_nat n"
    by (intro arg_cong2 [where f = "(/)"] sum.cong refl) (simp add: turn)
  also have "\<dots> = complex_of_real (x ! i)"
    using npos \<open>i < n\<close> by simp
  finally show ?thesis
    by (simp add: X_def)
qed

lemma irfft_rfft:
  assumes "length x = 2 * h" and "0 < h"
  shows "irfft (rfft x) = x"
proof (rule nth_equalityI)
  show "length (irfft (rfft x)) = length x"
    using assms by (simp add: length_irfft length_rfft)
next
  fix i assume "i < length (irfft (rfft x))"
  then have "i < 2 * h"
    using assms by (simp add: length_irfft length_rfft)
  with assms show "irfft (rfft x) ! i = x ! i"
    by (rule irfft_rfft_nth)
qed


section \<open>The spectrum of the filtered block\<close>

lemma block_size_half: "block_size = 2 * 1024" "block_size div 2 = 1024"
  by (simp_all add: block_size_def)

lemma rfftfreq_nth:
  assumes "k \<le> n div 2"
  shows "rfftfreq n d ! k = real k * (1 / (real n * d))"
  using assms by (simp add: rfftfreq_def Let_def del: upt_Suc)

lemma masked_nth:
  fixes fs :: "real list"
  assumes "length fs = length X" and "k < length X"
  shows "map2 (\<lambda>s z. if s then 0 else z) (map (\<lambda>f. \<not> (f \<ge> lo \<and> f \<le> hi)) fs) X ! k
           = (if fs ! k < lo \<or> hi < fs ! k then 0 else X ! k)"
proof -
  have "(\<not> (f \<ge> lo \<and> f \<le> hi)) = (f < lo \<or> hi < f)" for f :: real
    by auto
  then show ?thesis
    using assms by simp
qed

text \<open>
  C2. In every reachable state, for a block of \<open>block_size\<close> samples and any two
  cutoffs, \<^verbatim>\<open>apply_bandpass\<close> returns the inverse transform of a spectrum \<open>M\<close> of
  \<open>block_size/2 + 1\<close> bins, where bin \<open>k\<close> of \<open>M\<close> is zero when \<open>freqs[k] < low\<close> or
  \<open>freqs[k] > high\<close>, and otherwise is bin \<open>k\<close> of the forward transform of the block
  multiplied elementwise by the window. The forward transform of the returned block is
  \<open>M\<close> again: zero at every bin outside the band, unchanged at every bin inside.
\<close>

theorem apply_bandpass_spectrum:
  assumes "reachable st" and "length block = block_size"
  shows "\<exists>M out. apply_bandpass (freqs st) block lo hi = Inr out
     \<and> length M = block_size div 2 + 1 \<and> out = irfft M
     \<and> (\<forall>k\<le>block_size div 2.
           M ! k = (if freqs st ! k < lo \<or> hi < freqs st ! k then 0
                    else rfft (map2 (*) block window) ! k)
         \<and> rfft out ! k = M ! k)"
proof -
  define X where "X = rfft (map2 (*) block window)"
  define M where
    "M = map2 (\<lambda>s z. if s then 0 else z) (map (\<lambda>f. \<not> (f \<ge> lo \<and> f \<le> hi)) (freqs st)) X"
  have lenw: "length (map2 (*) block window) = 2 * 1024"
    using assms(2) by (simp add: length_window block_size_half)
  have lenX: "length X = 1024 + 1"
    by (simp only: X_def length_rfft lenw)
  have lenf: "length (freqs st) = block_size div 2 + 1"
    using assms(1) by (rule reachable_length_freqs)
  have lenM: "length M = 1024 + 1"
    using lenX lenf by (simp add: M_def block_size_half)
  have out: "apply_bandpass (freqs st) block lo hi = Inr (irfft M)"
    using apply_bandpass_full [OF assms(2) lenf] by (simp add: M_def X_def)
  have bins: "M ! k = (if freqs st ! k < lo \<or> hi < freqs st ! k then 0 else X ! k)"
    if "k \<le> 1024" for k
    unfolding M_def using that lenX lenf by (intro masked_nth) (simp_all add: block_size_half)
  have pos: "0 < length (map2 (*) block window)"
    unfolding lenw by simp
  have "complex_of_real (Re (X ! 0)) = X ! 0"
    unfolding X_def using pos by (rule rfft_first_real)
  then have first: "complex_of_real (Re (M ! 0)) = M ! 0"
    using bins [of 0] by simp
  have "complex_of_real (Re (X ! 1024)) = X ! 1024"
    unfolding X_def using lenw by (rule rfft_last_real) simp
  then have last: "complex_of_real (Re (M ! 1024)) = M ! 1024"
    using bins [of 1024] by simp
  have again: "rfft (irfft M) ! k = M ! k" if "k \<le> 1024" for k
    using rfft_irfft_nth [OF lenM _ that] first last by simp
  show ?thesis
    using out lenM bins again by (auto simp: block_size_half X_def)
qed

theorem apply_bandpass_spectrum_witness:
  "reachable (initial_state [] 44100) \<and> length (replicate 2048 (0::real)) = block_size
   \<and> (\<exists>M out. apply_bandpass (freqs (initial_state [] 44100)) (replicate 2048 0) 100 1000 = Inr out
         \<and> length M = block_size div 2 + 1 \<and> out = irfft M
         \<and> (\<forall>k\<le>block_size div 2.
               M ! k = (if freqs (initial_state [] 44100) ! k < 100
                           \<or> 1000 < freqs (initial_state [] 44100) ! k then 0
                        else rfft (map2 (*) (replicate 2048 0) window) ! k)
             \<and> rfft out ! k = M ! k))"
proof -
  have r: "reachable (initial_state [] 44100)"
    by (rule reachable_initial) simp
  have l: "length (replicate 2048 (0::real)) = block_size"
    by (simp add: block_size_def)
  from r l apply_bandpass_spectrum [OF r l, of 100 1000] show ?thesis
    by blast
qed

section \<open>A band that keeps every bin\<close>

lemma window_first: "window ! 0 = 0"
proof -
  have "window ! 0 = 0.42 + 0.5 * cos (pi * (- 2047) / 2047) + 0.08 * cos (2 * pi * (- 2047) / 2047)"
    by (simp add: window_def blackman_def block_size_def Let_def del: upt_Suc)
  also have "pi * (- 2047) / 2047 = - pi"
    by simp
  also have "2 * pi * (- 2047) / 2047 = - (2 * pi)"
    by simp
  finally show ?thesis
    by simp
qed

text \<open>
  C10. Let \<open>freqs\<close> be computed from a rate \<open>rate\<close>, as at start-up. For a block of
  \<open>block_size\<close> samples and cutoffs with \<open>low \<le> 0\<close> and \<open>high \<ge> rate/2\<close>, no bin is
  zeroed and \<^verbatim>\<open>apply_bandpass\<close> returns the block multiplied elementwise by the window:
  the inverse transform undoes the forward transform, and nothing divides the window
  out. The first window coefficient is zero, so the result differs from every block whose
  first sample is not zero.
\<close>

theorem apply_bandpass_all_bins_kept:
  assumes "0 < rate" and "length block = block_size" and "lo \<le> 0" and "real rate / 2 \<le> hi"
  shows "apply_bandpass (freqs (initial_state samples rate)) block lo hi
           = Inr (map2 (*) block window)
     \<and> irfft (rfft (map2 (*) block window)) = map2 (*) block window
     \<and> (block ! 0 \<noteq> 0 \<longrightarrow> map2 (*) block window \<noteq> block)"
proof -
  define fs where "fs = rfftfreq block_size (1 / real rate)"
  define X where "X = rfft (map2 (*) block window)"
  have lenw: "length (map2 (*) block window) = 2 * 1024"
    using assms(2) by (simp add: length_window block_size_half)
  have lenX: "length X = 1024 + 1"
    by (simp only: X_def length_rfft lenw)
  have lenf: "length fs = block_size div 2 + 1"
    by (simp add: fs_def length_rfftfreq)
  have inband: "lo \<le> fs ! k \<and> fs ! k \<le> hi" if "k \<le> 1024" for k
  proof -
    have "fs ! k = real k * real rate / 2048"
      using that assms(1) rfftfreq_nth [of k block_size "1 / real rate"]
      by (simp add: fs_def block_size_def)
    moreover have "0 \<le> real k * real rate / 2048"
      by simp
    moreover have "real k * real rate / 2048 \<le> real rate / 2"
    proof -
      have "real k \<le> 1024"
        using that by simp
      then have "real k * real rate \<le> 1024 * real rate"
        by (intro mult_right_mono) simp_all
      then show ?thesis
        by simp
    qed
    ultimately show ?thesis
      using assms(3,4) by linarith
  qed
  have keep: "map2 (\<lambda>s z. if s then 0 else z) (map (\<lambda>f. \<not> (f \<ge> lo \<and> f \<le> hi)) fs) X = X"
  proof (rule nth_equalityI)
    show "length (map2 (\<lambda>s z. if s then 0 else z) (map (\<lambda>f. \<not> (f \<ge> lo \<and> f \<le> hi)) fs) X)
            = length X"
      using lenX lenf by (simp add: block_size_half)
  next
    fix k
    assume "k < length (map2 (\<lambda>s z. if s then 0 else z)
                          (map (\<lambda>f. \<not> (f \<ge> lo \<and> f \<le> hi)) fs) X)"
    then have k: "k \<le> 1024"
      using lenX by simp
    then have "k < length X" "length fs = length X"
      using lenX lenf by (simp_all add: block_size_half)
    then show "map2 (\<lambda>s z. if s then 0 else z) (map (\<lambda>f. \<not> (f \<ge> lo \<and> f \<le> hi)) fs) X ! k
                 = X ! k"
      using inband [OF k] by simp
  qed
  have inverse: "irfft X = map2 (*) block window"
    unfolding X_def using lenw by (rule irfft_rfft) simp
  have "apply_bandpass fs block lo hi = Inr (map2 (*) block window)"
    using apply_bandpass_full [OF assms(2) lenf, of lo hi] keep inverse by (simp add: X_def)
  moreover have "map2 (*) block window \<noteq> block" if "block ! 0 \<noteq> 0"
  proof
    assume "map2 (*) block window = block"
    then have "map2 (*) block window ! 0 = block ! 0"
      by simp
    moreover have "map2 (*) block window ! 0 = block ! 0 * window ! 0"
      using assms(2) by (simp add: length_window block_size_def)
    ultimately show False
      using that by (simp add: window_first)
  qed
  ultimately show ?thesis
    using inverse by (simp add: fs_def X_def initial_state_def)
qed

theorem apply_bandpass_all_bins_kept_witness:
  "(0::nat) < 44100 \<and> length (replicate 2048 (1::real)) = block_size
   \<and> (0::real) \<le> 0 \<and> real 44100 / 2 \<le> (22050::real)
   \<and> replicate 2048 (1::real) ! 0 \<noteq> 0
   \<and> apply_bandpass (freqs (initial_state [] 44100)) (replicate 2048 1) 0 22050
        = Inr (map2 (*) (replicate 2048 1) window)
   \<and> map2 (*) (replicate 2048 1) window \<noteq> replicate 2048 1"
proof -
  have rate: "(0::nat) < 44100"
    by simp
  have len: "length (replicate 2048 (1::real)) = block_size"
    by (simp add: block_size_def)
  have lo: "(0::real) \<le> 0"
    by simp
  have hi: "real 44100 / 2 \<le> (22050::real)"
    by simp
  have nz: "replicate 2048 (1::real) ! 0 \<noteq> 0"
    by simp
  from rate len lo hi nz apply_bandpass_all_bins_kept [OF rate len lo hi, of "[]"]
  show ?thesis
    by blast
qed

end
